theory Spec2Isabelle
  imports Main "HOL-Library.Word" "HOL-Library.Signed_Division"
begin

unbundle bit_operations_syntax

section \<open>Data model of bitset.c\<close>

text \<open>
  The header bitset.h is not among the sources; the two structs are read off the uses
  of their fields in bitset.c. A C \<open>int\<close> is a HOL \<open>int\<close>, a \<open>uint64_t\<close> is a
  \<open>64 word\<close>. The heap block behind \<open>chunks\<close> is the list \<open>chunks\<close>: its length is
  the number of words that \<open>malloc\<close> handed out. A pointer into the block is the word
  offset from \<open>chunks\<close>, an \<open>int\<close>, so that \<open>chunks - 1\<close> and \<open>++chunk\<close> past the
  last word can be formed; dereferencing an offset outside the block is the failure
  \<open>OutOfBounds\<close>.
\<close>

datatype error =
    AllocationFailure
  | IndexOutOfRange
  | ShiftOutOfRange
  | OutOfBounds
  | SignedOverflow

record BitSet =
  capacity :: int
  nchunks :: int
  chunks :: "64 word list"

record BitSetIterator =
  iter_chunk :: int
  iter_mask :: "64 word"
  iter_index :: int
  iter_capacity :: int

definition INT_MAX :: int where
  "INT_MAX = 2147483647"

text \<open>\<open>*p\<close> for a pointer \<open>p\<close> at word offset \<open>p\<close> of the block \<open>ws\<close>.\<close>

definition load :: "64 word list \<Rightarrow> int \<Rightarrow> error + 64 word" where
  "load ws p = (if 0 \<le> p \<and> p < int (length ws) then Inr (ws ! nat p) else Inl OutOfBounds)"

text \<open>\<open>ws[p] = f (ws[p])\<close>, the read-modify-write of \<open>|=\<close> and \<open>&=\<close>.\<close>

definition modify :: "64 word list \<Rightarrow> int \<Rightarrow> (64 word \<Rightarrow> 64 word) \<Rightarrow> error + 64 word list" where
  "modify ws p f =
     (if 0 \<le> p \<and> p < int (length ws) then Inr (ws[nat p := f (ws ! nat p)])
      else Inl OutOfBounds)"

text \<open>\<open>1ull << n\<close> for an \<open>int\<close> n: undefined in C unless \<open>0 \<le> n < 64\<close>.\<close>

definition shl_one :: "int \<Rightarrow> error + 64 word" where
  "shl_one n = (if 0 \<le> n \<and> n < 64 then Inr (push_bit (nat n) 1) else Inl ShiftOutOfRange)"

section \<open>Storage core\<close>

text \<open>\<open>memset\<close> over \<open>nchunks\<close> words.\<close>

definition bitset_reset :: "BitSet \<Rightarrow> BitSet" where
  "bitset_reset self = self\<lparr>chunks := replicate (nat (nchunks self)) 0\<rparr>"

text \<open>
  \<open>bitset_init\<close>. The outcome of \<open>malloc\<close> is an argument: \<open>None\<close> for \<open>NULL\<close>,
  \<open>Some junk\<close> for a block whose word \<open>i\<close> holds \<open>junk i\<close> before it is cleared.
  \<open>/\<close> and \<open>%\<close> on \<open>int\<close> truncate towards zero: \<open>sdiv\<close> and \<open>smod\<close>.
  The byte count \<open>sizeof(uint64_t) * nchunks\<close> is unsigned, so a negative \<open>nchunks\<close>
  (a capacity of -64 or less) asks for nearly the whole address space, which \<open>malloc\<close>
  refuses.
\<close>

definition bitset_init :: "(nat \<Rightarrow> 64 word) option \<Rightarrow> int \<Rightarrow> error + BitSet" where
  "bitset_init heap cap =
     (let n0 = cap sdiv 64;
          n = (if cap smod 64 \<noteq> 0 then n0 + 1 else n0)
      in case (if n < 0 then None else heap) of
           None \<Rightarrow> Inl AllocationFailure
         | Some junk \<Rightarrow>
             Inr (bitset_reset \<lparr>capacity = cap, nchunks = n, chunks = map junk [0..<nat n]\<rparr>))"

text \<open>\<open>bitset_new\<close>: the struct itself is allocated first (\<open>struct_ok\<close>).\<close>

definition bitset_new :: "bool \<Rightarrow> (nat \<Rightarrow> 64 word) option \<Rightarrow> int \<Rightarrow> error + BitSet" where
  "bitset_new struct_ok heap cap =
     (if \<not> struct_ok then Inl AllocationFailure else bitset_init heap cap)"

text \<open>\<open>index_check\<close>: \<open>exit(1)\<close> is the failure \<open>IndexOutOfRange\<close>.\<close>

definition index_check :: "BitSet \<Rightarrow> int \<Rightarrow> error + unit" where
  "index_check self index =
     (if index \<ge> capacity self then Inl IndexOutOfRange else Inr ())"

definition bitset_set :: "BitSet \<Rightarrow> int \<Rightarrow> error + BitSet" where
  "bitset_set self index =
     (case index_check self index of
        Inl e \<Rightarrow> Inl e
      | Inr _ \<Rightarrow>
          (case shl_one (index smod 64) of
             Inl e \<Rightarrow> Inl e
           | Inr bitmask \<Rightarrow>
               (case modify (chunks self) (index sdiv 64) (\<lambda>w. w OR bitmask) of
                  Inl e \<Rightarrow> Inl e
                | Inr ws \<Rightarrow> Inr (self\<lparr>chunks := ws\<rparr>))))"

definition bitset_clear :: "BitSet \<Rightarrow> int \<Rightarrow> error + BitSet" where
  "bitset_clear self index =
     (case index_check self index of
        Inl e \<Rightarrow> Inl e
      | Inr _ \<Rightarrow>
          (case shl_one (index smod 64) of
             Inl e \<Rightarrow> Inl e
           | Inr b \<Rightarrow>
               (case modify (chunks self) (index sdiv 64) (\<lambda>w. w AND NOT b) of
                  Inl e \<Rightarrow> Inl e
                | Inr ws \<Rightarrow> Inr (self\<lparr>chunks := ws\<rparr>))))"

definition bitset_get :: "BitSet \<Rightarrow> int \<Rightarrow> error + bool" where
  "bitset_get self index =
     (case index_check self index of
        Inl e \<Rightarrow> Inl e
      | Inr _ \<Rightarrow>
          (case shl_one (index smod 64) of
             Inl e \<Rightarrow> Inl e
           | Inr bitmask \<Rightarrow>
               (case load (chunks self) (index sdiv 64) of
                  Inl e \<Rightarrow> Inl e
                | Inr w \<Rightarrow> Inr (w AND bitmask \<noteq> 0))))"

section \<open>Enumeration engine\<close>

text \<open>
  The inner loop of both scans,
  \<^verbatim>\<open>while ( ! *chunk ) { ++chunk; index += 64; if (index >= capacity) return -1; }\<close>
  from the pointer \<open>chunk\<close> and the running \<open>index\<close>. The result is \<open>(True, chunk, index)\<close>
  when the loop ends at a non-zero word and \<open>(False, chunk, index)\<close> when it leaves the
  function by \<open>return -1\<close>, each with the values the two variables have then.
  \<open>index += 64\<close> beyond \<open>INT_MAX\<close> is undefined in C: \<open>SignedOverflow\<close>.
\<close>

function skip_zero_chunks ::
  "64 word list \<Rightarrow> int \<Rightarrow> int \<Rightarrow> int \<Rightarrow> error + (bool \<times> int \<times> int)" where
  "skip_zero_chunks ws cap chunk index =
     (case load ws chunk of
        Inl e \<Rightarrow> Inl e
      | Inr w \<Rightarrow>
          if w \<noteq> 0 then Inr (True, chunk, index)
          else if index + 64 > INT_MAX then Inl SignedOverflow
          else if index + 64 \<ge> cap then Inr (False, chunk + 1, index + 64)
          else skip_zero_chunks ws cap (chunk + 1) (index + 64))"
  by pat_completeness auto
termination
  by (relation "measure (\<lambda>(ws, cap, chunk, index). nat (cap - index))") auto

declare skip_zero_chunks.simps [simp del]

lemma skip_zero_chunks_index:
  "skip_zero_chunks ws cap chunk index = Inr (found, chunk', index') \<Longrightarrow> index \<le> index'"
proof (induction ws cap chunk index rule: skip_zero_chunks.induct)
  case (1 ws cap chunk index)
  from "1.prems" show ?case
    by (subst (asm) skip_zero_chunks.simps)
       (auto split: sum.splits if_splits dest!: "1.IH")
qed

text \<open>
  \<open>bitset_next_set_bit\<close>: the outer loop, from the pointer \<open>chunk\<close>, the mask \<open>m\<close> and
  the running \<open>index\<close>.
\<close>

function next_set_bit_loop :: "BitSet \<Rightarrow> int \<Rightarrow> 64 word \<Rightarrow> int \<Rightarrow> error + int" where
  "next_set_bit_loop bs chunk m index =
     (if index < capacity bs then
        (case load (chunks bs) chunk of
           Inl e \<Rightarrow> Inl e
         | Inr w \<Rightarrow>
             if m AND w \<noteq> 0 then Inr index
             else if push_bit 1 m = 0 then
               (case skip_zero_chunks (chunks bs) (capacity bs) (chunk + 1) (index + 1) of
                  Inl e \<Rightarrow> Inl e
                | Inr (found, chunk', index') \<Rightarrow>
                    if found then next_set_bit_loop bs chunk' 1 index' else Inr (- 1))
             else next_set_bit_loop bs chunk (push_bit 1 m) (index + 1))
      else Inr (- 1))"
  by pat_completeness auto
termination
proof (relation "measure (\<lambda>(bs, chunk, m, index). nat (capacity bs - index))", goal_cases)
  case 1
  show ?case by simp
next
  case (2 bs chunk m index w r found rest chunk' index')
  then have "index + 1 \<le> index'"
    using skip_zero_chunks_index [of "chunks bs" "capacity bs" "chunk + 1" "index + 1" found chunk' index']
    by simp
  with 2 show ?case by simp
next
  case 3
  then show ?case by simp
qed

declare next_set_bit_loop.simps [simp del]

text \<open>
  \<open>index >> 6\<close> is \<open>drop_bit 6\<close> and \<open>index & 0x3F\<close> is \<open>AND 63\<close>, which lies in
  \<open>0..63\<close> for every \<open>index\<close>, so this shift is always defined.
\<close>

definition bitset_next_set_bit :: "BitSet \<Rightarrow> int \<Rightarrow> error + int" where
  "bitset_next_set_bit bs index =
     next_set_bit_loop bs (drop_bit 6 index) (push_bit (nat (index AND 63)) 1) index"

text \<open>\<open>bitset_iter_begin\<close>: the pointer \<open>bs->chunks - 1\<close> is the offset \<open>-1\<close>.\<close>

definition bitset_iter_begin :: "BitSet \<Rightarrow> BitSetIterator" where
  "bitset_iter_begin bs =
     \<lparr>iter_chunk = - 1, iter_mask = 0, iter_index = - 1, iter_capacity = capacity bs\<rparr>"

text \<open>
  The first half of the body of the loop of \<open>bitset_iter_next\<close>: the mask and the index
  move one bit on and, when the mask has left the word, the cursor moves to the next
  non-zero word. \<open>(False, bsi)\<close> is the \<open>return -1\<close> inside the inner loop, \<open>(True, bsi)\<close>
  goes on to the test of the bit; \<open>bsi\<close> is the cursor as the code leaves it.
\<close>

definition iter_step :: "64 word list \<Rightarrow> BitSetIterator \<Rightarrow> error + (bool \<times> BitSetIterator)" where
  "iter_step ws bsi =
     (let bsi1 = bsi\<lparr>iter_mask := push_bit 1 (iter_mask bsi), iter_index := iter_index bsi + 1\<rparr>
      in if iter_mask bsi1 = 0 then
           (case skip_zero_chunks ws (iter_capacity bsi1) (iter_chunk bsi1 + 1) (iter_index bsi1) of
              Inl e \<Rightarrow> Inl e
            | Inr (found, chunk', index') \<Rightarrow>
                Inr (found, bsi1\<lparr>iter_mask := 1, iter_chunk := chunk', iter_index := index'\<rparr>))
         else Inr (True, bsi1))"

lemma iter_step_progress:
  "iter_step ws bsi = Inr (go, bsi') \<Longrightarrow>
     iter_index bsi < iter_index bsi' \<and> iter_capacity bsi' = iter_capacity bsi"
  by (auto simp: iter_step_def Let_def split: if_splits sum.splits prod.splits
      dest!: skip_zero_chunks_index)

text \<open>
  \<open>bitset_iter_next\<close> on the storage \<open>ws\<close> the cursor points into. The result is the
  returned \<open>int\<close> and the cursor after the call.
\<close>

function bitset_iter_next ::
  "64 word list \<Rightarrow> BitSetIterator \<Rightarrow> error + (int \<times> BitSetIterator)" where
  "bitset_iter_next ws bsi =
     (if iter_index bsi < iter_capacity bsi then
        (case iter_step ws bsi of
           Inl e \<Rightarrow> Inl e
         | Inr (go, bsi') \<Rightarrow>
             if \<not> go then Inr (- 1, bsi')
             else
               (case load ws (iter_chunk bsi') of
                  Inl e \<Rightarrow> Inl e
                | Inr w \<Rightarrow>
                    if iter_mask bsi' AND w \<noteq> 0 then Inr (iter_index bsi', bsi')
                    else bitset_iter_next ws bsi'))
      else Inr (- 1, bsi))"
  by pat_completeness auto
termination
proof (relation "measure (\<lambda>(ws, bsi). nat (iter_capacity bsi - iter_index bsi))", goal_cases)
  case 1
  show ?case by simp
next
  case (2 ws bsi r go bsi' w)
  then show ?case
    using iter_step_progress [of ws bsi go bsi'] by simp
qed

declare bitset_iter_next.simps [simp del]

lemma next_set_bit_loop_range:
  "next_set_bit_loop bs chunk m index = Inr r \<Longrightarrow> r = - 1 \<or> (index \<le> r \<and> r < capacity bs)"
proof (induction bs chunk m index rule: next_set_bit_loop.induct)
  case (1 bs chunk m index)
  note eq = next_set_bit_loop.simps [of bs chunk m index]
  show ?case
  proof (cases "index < capacity bs")
    case False
    with "1.prems" eq show ?thesis by simp
  next
    case lt: True
    show ?thesis
    proof (cases "load (chunks bs) chunk")
      case (Inl e)
      with "1.prems" eq lt show ?thesis by simp
    next
      case (Inr w)
      show ?thesis
      proof (cases "m AND w \<noteq> 0")
        case True
        with "1.prems" eq lt Inr show ?thesis by simp
      next
        case zero: False
        show ?thesis
        proof (cases "push_bit 1 m = 0")
          case False
          with "1.prems" eq lt Inr zero
          have "next_set_bit_loop bs chunk (push_bit 1 m) (index + 1) = Inr r"
            by simp
          from "1.IH"(2) [OF lt Inr zero False this] show ?thesis
            by auto
        next
          case True
          show ?thesis
          proof (cases "skip_zero_chunks (chunks bs) (capacity bs) (chunk + 1) (index + 1)")
            case (Inl e)
            with "1.prems" eq lt \<open>load (chunks bs) chunk = Inr w\<close> zero True show ?thesis
              by simp
          next
            case sk: (Inr t)
            obtain found chunk' index' where t: "t = (found, chunk', index')"
              by (cases t) auto
            show ?thesis
            proof (cases found)
              case False
              with "1.prems" eq lt \<open>load (chunks bs) chunk = Inr w\<close> zero True sk t show ?thesis
                by simp
            next
              case fnd: True
              with "1.prems" eq lt \<open>load (chunks bs) chunk = Inr w\<close> zero True sk t
              have "next_set_bit_loop bs chunk' 1 index' = Inr r"
                by simp
              from "1.IH"(1) [OF lt \<open>load (chunks bs) chunk = Inr w\<close> zero True sk t [symmetric] refl fnd this]
              have "r = - 1 \<or> index' \<le> r \<and> r < capacity bs" .
              moreover have "index + 1 \<le> index'"
                using skip_zero_chunks_index sk t by blast
              ultimately show ?thesis by auto
            qed
          qed
        qed
      qed
    qed
  qed
qed

lemma bitset_iter_next_progress:
  "bitset_iter_next ws bsi = Inr (e, bsi') \<Longrightarrow>
     iter_capacity bsi' = iter_capacity bsi \<and>
     (e = - 1 \<or> (iter_index bsi < iter_capacity bsi \<and> iter_index bsi < iter_index bsi' \<and> e = iter_index bsi'))"
proof (induction ws bsi rule: bitset_iter_next.induct)
  case (1 ws bsi)
  note eq = bitset_iter_next.simps [of ws bsi]
  show ?case
  proof (cases "iter_index bsi < iter_capacity bsi")
    case False
    with "1.prems" eq show ?thesis by simp
  next
    case lt: True
    show ?thesis
    proof (cases "iter_step ws bsi")
      case (Inl e)
      with "1.prems" eq lt show ?thesis by simp
    next
      case st: (Inr t)
      obtain go bsi1 where t: "t = (go, bsi1)"
        by (cases t) auto
      from st t have pr: "iter_index bsi < iter_index bsi1" "iter_capacity bsi1 = iter_capacity bsi"
        using iter_step_progress by blast+
      show ?thesis
      proof (cases go)
        case False
        with "1.prems" eq lt st t pr show ?thesis by auto
      next
        case go: True
        show ?thesis
        proof (cases "load ws (iter_chunk bsi1)")
          case (Inl e)
          with "1.prems" eq lt st t go show ?thesis by simp
        next
          case (Inr w)
          show ?thesis
          proof (cases "iter_mask bsi1 AND w \<noteq> 0")
            case True
            with "1.prems" eq lt st t go Inr pr show ?thesis by auto
          next
            case False
            with "1.prems" eq lt st t go Inr
            have "bitset_iter_next ws bsi1 = Inr (e, bsi')"
              by simp
            from "1.IH" [OF lt st t [symmetric] _ Inr False this] go pr lt
            show ?thesis by auto
          qed
        qed
      qed
    qed
  qed
qed

text \<open>
  The loop of \<open>bitset_enumerate\<close>, a fresh cursor advanced until it returns a negative
  value, with the elements kept in order (the source adds them up). The second component
  is the failure that stopped the loop, if one did.
\<close>

function enumerate_elems :: "64 word list \<Rightarrow> BitSetIterator \<Rightarrow> int list \<times> error option" where
  "enumerate_elems ws bsi =
     (case bitset_iter_next ws bsi of
        Inl e \<Rightarrow> ([], Some e)
      | Inr (elem, bsi') \<Rightarrow>
          if elem \<ge> 0 then
            (case enumerate_elems ws bsi' of (elems, out) \<Rightarrow> (elem # elems, out))
          else ([], None))"
  by pat_completeness auto
termination
proof (relation "measure (\<lambda>(ws, bsi). nat (iter_capacity bsi - iter_index bsi))", goal_cases)
  case 1
  show ?case by simp
next
  case (2 ws bsi r elem bsi')
  then show ?case
    using bitset_iter_next_progress [of ws bsi elem bsi'] by auto
qed

declare enumerate_elems.simps [simp del]

text \<open>
  The loop of \<open>bitset_enumerate2\<close>: \<open>bitset_next_set_bit\<close> from \<open>start\<close>, restarted
  one past each result.
\<close>

function enumerate2_elems :: "BitSet \<Rightarrow> int \<Rightarrow> int list \<times> error option" where
  "enumerate2_elems self start =
     (case bitset_next_set_bit self start of
        Inl e \<Rightarrow> ([], Some e)
      | Inr elem \<Rightarrow>
          if elem \<ge> 0 then
            (case enumerate2_elems self (elem + 1) of (elems, out) \<Rightarrow> (elem # elems, out))
          else ([], None))"
  by pat_completeness auto
termination
proof (relation "measure (\<lambda>(self, start). nat (capacity self - start))", goal_cases)
  case 1
  show ?case by simp
next
  case (2 self start elem)
  then show ?case
    using next_set_bit_loop_range [of self "drop_bit 6 start" "push_bit (nat (start AND 63)) 1" start elem]
    by (auto simp: bitset_next_set_bit_def)
qed

declare enumerate2_elems.simps [simp del]

section \<open>Vocabulary of the statements\<close>

text \<open>
  What \<open>bitset_init\<close> sets up and no operation changes: \<open>nchunks\<close> is the number of words
  computed there from \<open>capacity\<close>, and the block holds that many words.
\<close>

definition layout_ok :: "BitSet \<Rightarrow> bool" where
  "layout_ok bs \<longleftrightarrow>
     nchunks bs = (if capacity bs smod 64 \<noteq> 0 then capacity bs sdiv 64 + 1 else capacity bs sdiv 64) \<and>
     length (chunks bs) = nat (nchunks bs)"

text \<open>Bit position \<open>p\<close> of the storage: bit \<open>p mod 64\<close> of word \<open>p div 64\<close>.\<close>

definition storage_bit :: "BitSet \<Rightarrow> nat \<Rightarrow> bool" where
  "storage_bit bs p = bit (chunks bs ! (p div 64)) (p mod 64)"

text \<open>Every position of the block at or beyond \<open>capacity\<close> holds 0.\<close>

definition padding_zero :: "BitSet \<Rightarrow> bool" where
  "padding_zero bs \<longleftrightarrow>
     (\<forall>p \<in> {0 ..< 64 * length (chunks bs)}. capacity bs \<le> int p \<longrightarrow> \<not> storage_bit bs p)"

text \<open>The calls that change a bitset, and a sequence of them run in order.\<close>

datatype mutation = Set int | Clear int | Reset

fun apply_mutation :: "BitSet \<Rightarrow> mutation \<Rightarrow> error + BitSet" where
  "apply_mutation bs (Set i) = bitset_set bs i"
| "apply_mutation bs (Clear i) = bitset_clear bs i"
| "apply_mutation bs Reset = Inr (bitset_reset bs)"

fun apply_mutations :: "BitSet \<Rightarrow> mutation list \<Rightarrow> error + BitSet" where
  "apply_mutations bs [] = Inr bs"
| "apply_mutations bs (x # xs) =
     (case apply_mutation bs x of Inl e \<Rightarrow> Inl e | Inr bs' \<Rightarrow> apply_mutations bs' xs)"

fun valid_mutation :: "int \<Rightarrow> mutation \<Rightarrow> bool" where
  "valid_mutation cap (Set i) \<longleftrightarrow> 0 \<le> i \<and> i < cap"
| "valid_mutation cap (Clear i) \<longleftrightarrow> 0 \<le> i \<and> i < cap"
| "valid_mutation cap Reset \<longleftrightarrow> True"

text \<open>
  \<open>test_bit bs i\<close> is the stored bit \<open>i\<close>, the value of \<open>bitset_get\<close> at a valid index;
  \<open>set_from bs k\<close> lists the set indices from \<open>k\<close> up to \<open>capacity - 1\<close> in ascending
  order, and \<open>set_indices\<close> all of them.
\<close>

definition test_bit :: "BitSet \<Rightarrow> int \<Rightarrow> bool" where
  "test_bit bs i = bit (chunks bs ! nat (i div 64)) (nat (i mod 64))"

definition set_from :: "BitSet \<Rightarrow> int \<Rightarrow> int list" where
  "set_from bs k = filter (test_bit bs) [k..capacity bs - 1]"

definition set_indices :: "BitSet \<Rightarrow> int list" where
  "set_indices bs = set_from bs 0"

text \<open>
  A bitset as \<open>bitset_init\<close> lays it out whose capacity is not a multiple of 64, so that
  the last word of the block is partial, and is small enough for \<open>index += 64\<close> to stay
  within \<open>int\<close>.
\<close>

definition ragged :: "BitSet \<Rightarrow> bool" where
  "ragged bs \<longleftrightarrow>
     layout_ok bs \<and> 0 \<le> capacity bs \<and> capacity bs mod 64 \<noteq> 0 \<and> capacity bs \<le> INT_MAX - 63"

text \<open>\<open>r\<close> is the first set index at or above \<open>k\<close>, or -1 when there is none.\<close>

definition is_next :: "BitSet \<Rightarrow> int \<Rightarrow> int \<Rightarrow> bool" where
  "is_next bs k r \<longleftrightarrow>
     (r = - 1 \<and> (\<forall>p. k \<le> p \<and> p < capacity bs \<longrightarrow> \<not> test_bit bs p)) \<or>
     (k \<le> r \<and> r < capacity bs \<and> test_bit bs r \<and> (\<forall>p. k \<le> p \<and> p < r \<longrightarrow> \<not> test_bit bs p))"

text \<open>
  The cursor as \<open>bitset_iter_begin\<close> (\<open>i = -1\<close>) or a call that returned \<open>i\<close> leaves it:
  the index is \<open>i\<close>, the pointer is at the word of \<open>i\<close> and the mask at its bit.
\<close>

definition cursor_at :: "BitSet \<Rightarrow> int \<Rightarrow> BitSetIterator \<Rightarrow> bool" where
  "cursor_at bs i bsi \<longleftrightarrow>
     iter_index bsi = i \<and> iter_capacity bsi = capacity bs \<and> iter_chunk bsi = i div 64 \<and>
     iter_mask bsi = (if i < 0 then 0 else 2 ^ nat (i mod 64))"

text \<open>
  \<open>construct cap ms\<close> is \<open>bitset_new(cap)\<close> followed by the calls \<open>ms\<close>;
  \<open>with_chunks cap ws\<close> is the bitset of capacity \<open>cap\<close> whose block is \<open>ws\<close>.
\<close>

definition construct :: "int \<Rightarrow> mutation list \<Rightarrow> error + BitSet" where
  "construct cap ms =
     (case bitset_new True (Some (\<lambda>_. 0)) cap of
        Inl e \<Rightarrow> Inl e
      | Inr bs \<Rightarrow> apply_mutations bs ms)"

definition with_chunks :: "int \<Rightarrow> 64 word list \<Rightarrow> BitSet" where
  "with_chunks cap ws = \<lparr>capacity = cap, nchunks = int (length ws), chunks = ws\<rparr>"

section \<open>Storage core: bounds and frame\<close>

lemma sdiv_nonneg: "0 \<le> i \<Longrightarrow> i sdiv 64 = i div 64" for i :: int
  by (simp add: signed_divide_int_def sgn_if)

lemma smod_nonneg: "0 \<le> i \<Longrightarrow> i smod 64 = i mod 64" for i :: int
  by (simp add: signed_modulo_int_def sgn_if)

lemma valid_index_offset:
  assumes "layout_ok bs" "0 \<le> i" "i < capacity bs"
  shows "0 \<le> i div 64" "i div 64 < int (length (chunks bs))" "0 \<le> i mod 64" "i mod 64 < 64"
proof -
  from assms have c: "0 \<le> capacity bs" by simp
  from assms(1) have n: "int (length (chunks bs)) =
      (if capacity bs mod 64 \<noteq> 0 then capacity bs div 64 + 1 else capacity bs div 64)"
    by (simp add: layout_ok_def sdiv_nonneg smod_nonneg c)
  show "0 \<le> i div 64" using assms(2) by simp
  show "i div 64 < int (length (chunks bs))"
    using n assms(2,3) by (auto split: if_splits)
  show "0 \<le> i mod 64" "i mod 64 < 64" by simp_all
qed

lemma bitset_init_layout: "bitset_init heap cap = Inr bs \<Longrightarrow> layout_ok bs \<and> capacity bs = cap"
  by (auto simp: bitset_init_def bitset_reset_def layout_ok_def Let_def split: option.splits)

lemma bitset_init_padding: "bitset_init heap cap = Inr bs \<Longrightarrow> padding_zero bs"
  by (auto simp: bitset_init_def bitset_reset_def padding_zero_def storage_bit_def Let_def split: option.splits)

lemma bitset_reset_layout: "layout_ok bs \<Longrightarrow> layout_ok (bitset_reset bs)"
  by (simp add: layout_ok_def bitset_reset_def)

lemma bitset_reset_padding: "padding_zero (bitset_reset bs)"
  by (auto simp: padding_zero_def bitset_reset_def storage_bit_def)

lemma shl_one_valid: "0 \<le> i \<Longrightarrow> shl_one (i smod 64) = Inr (push_bit (nat (i mod 64)) 1)"
  by (simp add: shl_one_def smod_nonneg)

lemma bitset_set_valid:
  assumes "layout_ok bs" "0 \<le> i" "i < capacity bs"
  shows "bitset_set bs i =
    Inr (bs\<lparr>chunks := (chunks bs)[nat (i div 64) := chunks bs ! nat (i div 64) OR push_bit (nat (i mod 64)) 1]\<rparr>)"
  using assms valid_index_offset [OF assms]
  by (simp add: bitset_set_def index_check_def shl_one_valid sdiv_nonneg modify_def)

lemma bitset_clear_valid:
  assumes "layout_ok bs" "0 \<le> i" "i < capacity bs"
  shows "bitset_clear bs i =
    Inr (bs\<lparr>chunks := (chunks bs)[nat (i div 64) := chunks bs ! nat (i div 64) AND NOT (push_bit (nat (i mod 64)) 1)]\<rparr>)"
  using assms valid_index_offset [OF assms]
  by (simp add: bitset_clear_def index_check_def shl_one_valid sdiv_nonneg modify_def)

lemma bitset_get_valid:
  assumes "layout_ok bs" "0 \<le> i" "i < capacity bs"
  shows "bitset_get bs i = Inr (bit (chunks bs ! nat (i div 64)) (nat (i mod 64)))"
proof -
  have "(w AND push_bit n 1 \<noteq> 0) = bit w n" if "n < 64" for w :: "64 word" and n
    using that by (simp add: push_bit_eq_mult and_exp_eq_0_iff_not_bit) 
  then show ?thesis
  using assms valid_index_offset [OF assms]
  by (simp add: bitset_get_def index_check_def shl_one_valid sdiv_nonneg load_def nat_less_iff)
qed

lemma bit_set_mask: "n < 64 \<Longrightarrow> bit (w OR 2 ^ n) k \<longleftrightarrow> bit w k \<or> k = n" for w :: "64 word"
  by (auto simp: bit_or_iff bit_exp_iff)

lemma bit_clear_mask: "n < 64 \<Longrightarrow> bit (w AND NOT (2 ^ n)) k \<longleftrightarrow> bit w k \<and> k \<noteq> n" for w :: "64 word"
  by (auto simp: bit_and_iff bit_not_iff bit_exp_iff dest: bit_imp_le_length)

lemma index_split_neq:
  assumes "0 \<le> i" "0 \<le> j" "j \<noteq> i" "nat (j div 64) = nat (i div 64)"
  shows "nat (j mod 64) \<noteq> nat (i mod 64)" 
proof
  assume "nat (j mod 64) = nat (i mod 64)"
  then have "j mod 64 = i mod 64" by simp
  moreover from assms(1,2,4) have "j div 64 = i div 64" by simp
  ultimately have "j = i" by (metis div_mult_mod_eq)
  with assms(3) show False by simp
qed

lemma divmod_64: "\<exists>q r. c = 64 * q + r \<and> 0 \<le> r \<and> r < 64 \<and> c div 64 = q \<and> c mod 64 = r" for c :: int
  by (intro exI [of _ "c div 64"] exI [of _ "c mod 64"]) simp

lemma ceil_words: "(if c mod 64 \<noteq> 0 then c div 64 + 1 else c div 64) = (c + 63) div 64" for c :: int
proof -
  obtain q r where c: "c = 64 * q + r" "0 \<le> r" "r < 64" and q: "c div 64 = q" and r: "c mod 64 = r"
    using divmod_64 by blast
  show ?thesis
  proof (cases "r = 0")
    case True
    have "c + 63 = 64 * q + 63" using c True by simp
    then have "(c + 63) div 64 = q" by (rule int_div_pos_eq) simp_all
    with True q r show ?thesis by simp
  next
    case False
    have "c + 63 = 64 * (q + 1) + (r - 1)" using c by simp
    moreover have "0 \<le> r - 1" "r - 1 < 64" using c False by simp_all
    ultimately have "(c + 63) div 64 = q + 1" by (rule int_div_pos_eq)
    with False q r show ?thesis by simp
  qed
qed

lemma storage_index_eq:
  assumes "0 \<le> i" "p div 64 = nat (i div 64)" "p mod 64 = nat (i mod 64)"
  shows "int p = i"
proof -
  have "int p = 64 * int (p div 64) + int (p mod 64)"
    by (simp add: zdiv_int zmod_int)
  also have "\<dots> = 64 * (i div 64) + i mod 64"
    using assms by (simp add: pos_imp_zdiv_nonneg_iff)
  finally show ?thesis by simp
qed

lemma bitset_set_padding:
  assumes "layout_ok bs" "padding_zero bs" "0 \<le> i" "i < capacity bs" "bitset_set bs i = Inr bs'"
  shows "padding_zero bs'"
proof -
  let ?k = "nat (i div 64)" and ?n = "nat (i mod 64)"
  have bs': "bs' = bs\<lparr>chunks := (chunks bs)[?k := chunks bs ! ?k OR 2 ^ ?n]\<rparr>"
    using bitset_set_valid [OF assms(1,3,4)] assms(5) by simp
  have k: "?k < length (chunks bs)" and n: "?n < 64"
    using valid_index_offset [OF assms(1,3,4)] by (simp_all add: nat_less_iff)
  have "\<not> storage_bit bs' p" if p: "p < 64 * length (chunks bs)" "capacity bs \<le> int p" for p
  proof -
    from assms(2) p have old: "\<not> bit (chunks bs ! (p div 64)) (p mod 64)"
      by (simp add: padding_zero_def storage_bit_def)
    show ?thesis
    proof (cases "p div 64 = ?k")
      case True
      have "p mod 64 \<noteq> ?n"
        using storage_index_eq [OF assms(3) True] p(2) assms(4) by auto
      with True old k n show ?thesis
        by (simp add: storage_bit_def bs' bit_set_mask)
    next
      case False
      with old show ?thesis by (simp add: storage_bit_def bs')
    qed
  qed
  then show ?thesis by (simp add: padding_zero_def bs')
qed

lemma bitset_clear_padding:
  assumes "layout_ok bs" "padding_zero bs" "0 \<le> i" "i < capacity bs" "bitset_clear bs i = Inr bs'"
  shows "padding_zero bs'"
proof -
  let ?k = "nat (i div 64)" and ?n = "nat (i mod 64)"
  have bs': "bs' = bs\<lparr>chunks := (chunks bs)[?k := chunks bs ! ?k AND NOT (2 ^ ?n)]\<rparr>"
    using bitset_clear_valid [OF assms(1,3,4)] assms(5) by simp
  have k: "?k < length (chunks bs)" and n: "?n < 64"
    using valid_index_offset [OF assms(1,3,4)] by (simp_all add: nat_less_iff)
  have "\<not> storage_bit bs' p" if p: "p < 64 * length (chunks bs)" "capacity bs \<le> int p" for p
  proof -
    from assms(2) p have old: "\<not> bit (chunks bs ! (p div 64)) (p mod 64)"
      by (simp add: padding_zero_def storage_bit_def)
    show ?thesis
    proof (cases "p div 64 = ?k")
      case True
      with old k n show ?thesis
        by (simp add: storage_bit_def bs' bit_clear_mask)
    next
      case False
      with old show ?thesis by (simp add: storage_bit_def bs')
    qed
  qed
  then show ?thesis by (simp add: padding_zero_def bs')
qed

lemma bitset_set_layout:
  "layout_ok bs \<Longrightarrow> bitset_set bs i = Inr bs' \<Longrightarrow> layout_ok bs' \<and> capacity bs' = capacity bs"
  by (auto simp: bitset_set_def modify_def layout_ok_def split: sum.splits if_splits)

lemma bitset_clear_layout:
  "layout_ok bs \<Longrightarrow> bitset_clear bs i = Inr bs' \<Longrightarrow> layout_ok bs' \<and> capacity bs' = capacity bs"
  by (auto simp: bitset_clear_def modify_def layout_ok_def split: sum.splits if_splits)

lemma apply_mutation_invariant:
  assumes "layout_ok bs" "padding_zero bs" "valid_mutation (capacity bs) m"
  shows "\<exists>bs'. apply_mutation bs m = Inr bs' \<and> layout_ok bs' \<and> padding_zero bs' \<and>
           capacity bs' = capacity bs"
proof (cases m)
  case (Set i)
  with assms have i: "0 \<le> i" "i < capacity bs" by simp_all
  obtain bs' where s: "bitset_set bs i = Inr bs'"
    using bitset_set_valid [OF assms(1) i] by simp
  with bitset_set_layout [OF assms(1) s] bitset_set_padding [OF assms(1,2) i s] Set
  show ?thesis by simp
next
  case (Clear i)
  with assms have i: "0 \<le> i" "i < capacity bs" by simp_all
  obtain bs' where s: "bitset_clear bs i = Inr bs'"
    using bitset_clear_valid [OF assms(1) i] by simp
  with bitset_clear_layout [OF assms(1) s] bitset_clear_padding [OF assms(1,2) i s] Clear
  show ?thesis by simp
next
  case Reset
  with assms(1) show ?thesis
    by (simp add: bitset_reset_layout bitset_reset_padding) (simp add: bitset_reset_def)
qed

lemma apply_mutations_invariant:
  assumes "layout_ok bs" "padding_zero bs" "\<forall>m \<in> set ms. valid_mutation (capacity bs) m"
  shows "\<exists>bs'. apply_mutations bs ms = Inr bs' \<and> layout_ok bs' \<and> padding_zero bs' \<and>
           capacity bs' = capacity bs"
  using assms
proof (induction ms arbitrary: bs)
  case Nil
  then show ?case by simp
next
  case (Cons m ms)
  from Cons.prems obtain bs1 where 1: "apply_mutation bs m = Inr bs1" "layout_ok bs1"
      "padding_zero bs1" "capacity bs1 = capacity bs"
    using apply_mutation_invariant [of bs m] by auto
  with Cons.prems have "\<forall>m \<in> set ms. valid_mutation (capacity bs1) m" by simp
  from Cons.IH [OF 1(2,3) this] 1 show ?case by auto
qed

lemma apply_mutation_layout:
  assumes "layout_ok bs" "apply_mutation bs m = Inr bs'"
  shows "layout_ok bs' \<and> capacity bs' = capacity bs"
proof (cases m)
  case (Set i)
  with assms show ?thesis using bitset_set_layout [of bs i bs'] by simp
next
  case (Clear i)
  with assms show ?thesis using bitset_clear_layout [of bs i bs'] by simp
next
  case Reset
  with assms(2) have "bs' = bitset_reset bs" by simp
  with assms(1) show ?thesis
    using bitset_reset_layout [of bs] by (simp add: bitset_reset_def)
qed

lemma apply_mutations_layout:
  "layout_ok bs \<Longrightarrow> apply_mutations bs ms = Inr bs' \<Longrightarrow>
     layout_ok bs' \<and> capacity bs' = capacity bs"
proof (induction ms arbitrary: bs)
  case Nil
  then show ?case by simp
next
  case (Cons m ms)
  from Cons.prems(2) obtain bs1 where 1: "apply_mutation bs m = Inr bs1"
      and 2: "apply_mutations bs1 ms = Inr bs'"
    by (cases "apply_mutation bs m") simp_all
  from apply_mutation_layout [OF Cons.prems(1) 1]
  have 3: "layout_ok bs1" "capacity bs1 = capacity bs" by simp_all
  from Cons.IH [OF 3(1) 2] 3(2) show ?case by simp
qed

lemma bitset_new_init: "bitset_new ok heap cap = Inr bs \<Longrightarrow> bitset_init heap cap = Inr bs"
  by (simp add: bitset_new_def split: if_splits)

text \<open>
  \<open>index_check\<close> stops every index at or above \<open>capacity\<close> and no index below 0.
\<close>

lemma index_above_rejected:
  assumes "capacity bs \<le> i"
  shows "bitset_set bs i = Inl IndexOutOfRange" "bitset_clear bs i = Inl IndexOutOfRange"
    "bitset_get bs i = Inl IndexOutOfRange"
  using assms by (simp_all add: bitset_set_def bitset_clear_def bitset_get_def index_check_def)

lemma index_negative_not_rejected:
  assumes "i < 0" "0 \<le> capacity bs"
  shows "bitset_set bs i \<noteq> Inl IndexOutOfRange" "bitset_clear bs i \<noteq> Inl IndexOutOfRange"
    "bitset_get bs i \<noteq> Inl IndexOutOfRange"
  using assms
  by (auto simp: bitset_set_def bitset_clear_def bitset_get_def index_check_def shl_one_def
      modify_def load_def split: sum.splits)

section \<open>The scans when the last word is partial\<close>

lemma ragged_length:
  assumes "ragged bs"
  shows "int (length (chunks bs)) = capacity bs div 64 + 1"
proof -
  from assms have "nchunks bs = capacity bs div 64 + 1"
    by (simp add: ragged_def layout_ok_def sdiv_nonneg smod_nonneg)
  moreover have "0 \<le> capacity bs div 64"
    using assms by (simp add: ragged_def pos_imp_zdiv_nonneg_iff)
  ultimately show ?thesis
    using assms by (simp add: ragged_def layout_ok_def)
qed

lemma word_of_index:
  assumes "index = 64 * c" "index \<le> p" "p < index + 64"
  shows "p div 64 = (c :: int)"
proof -
  have "p = 64 * c + (p - index)" using assms by simp
  moreover have "0 \<le> p - index" "p - index < 64" using assms by simp_all
  ultimately show ?thesis by (rule int_div_pos_eq)
qed

lemma zero_word_no_bits:
  assumes "chunks bs ! nat c = 0" "0 \<le> c" "index = 64 * c" "index \<le> p" "p < index + 64"
  shows "\<not> test_bit bs p"
  using assms word_of_index [OF assms(3,4,5)] by (simp add: test_bit_def)

lemma chunk_in_block:
  assumes "ragged bs" "0 \<le> c" "64 * c < capacity bs"
  shows "c < int (length (chunks bs))"
proof -
  obtain q r where c: "capacity bs = 64 * q + r" "0 \<le> r" "r < 64" and q: "capacity bs div 64 = q"
    using divmod_64 by blast
  from assms(3) c have "c \<le> q" by simp
  with ragged_length [OF assms(1)] q show ?thesis by simp
qed

lemma skip_zero_chunks_spec:
  assumes "ragged bs" "0 \<le> c" "index = 64 * c" "index < capacity bs"
  shows "\<exists>found c' index'.
           skip_zero_chunks (chunks bs) (capacity bs) c index = Inr (found, c', index') \<and>
           (\<forall>p. index \<le> p \<and> p < index' \<longrightarrow> \<not> test_bit bs p) \<and>
           index' = 64 * c' \<and> c \<le> c' \<and>
           (if found then index' < capacity bs \<and> chunks bs ! nat c' \<noteq> 0 else capacity bs \<le> index')"
  using assms(2,3,4)
proof (induction "nat (capacity bs - index)" arbitrary: c index rule: less_induct)
  case less
  have inb: "c < int (length (chunks bs))"
    using chunk_in_block [OF assms(1) less.prems(1)] less.prems by simp
  then have ld: "load (chunks bs) c = Inr (chunks bs ! nat c)"
    using less.prems(1) by (simp add: load_def)
  have ovf: "\<not> index + 64 > INT_MAX"
    using assms(1) less.prems(3) by (simp add: ragged_def)
  note eq = skip_zero_chunks.simps [of "chunks bs" "capacity bs" c index]
  show ?case
  proof (cases "chunks bs ! nat c = 0")
    case False
    with eq ld have "skip_zero_chunks (chunks bs) (capacity bs) c index = Inr (True, c, index)"
      by simp
    moreover have "\<forall>p. index \<le> p \<and> p < index \<longrightarrow> \<not> test_bit bs p" by auto
    ultimately show ?thesis
      using False less.prems(2,3) by (intro exI [of _ True] exI [of _ c] exI [of _ index]) simp
  next
    case zero: True
    have none: "\<not> test_bit bs p" if "index \<le> p" "p < index + 64" for p
      using zero_word_no_bits [OF zero less.prems(1,2) that] .
    show ?thesis
    proof (cases "index + 64 \<ge> capacity bs")
      case True
      with eq ld zero ovf
      have "skip_zero_chunks (chunks bs) (capacity bs) c index = Inr (False, c + 1, index + 64)"
        by simp
      moreover have "\<forall>p. index \<le> p \<and> p < index + 64 \<longrightarrow> \<not> test_bit bs p"
        using none by simp
      ultimately show ?thesis
        using True less.prems(2)
        by (intro exI [of _ False] exI [of _ "c + 1"] exI [of _ "index + 64"]) simp
    next
      case False
      then have lt: "index + 64 < capacity bs" by simp
      have m: "nat (capacity bs - (index + 64)) < nat (capacity bs - index)"
        using lt by simp
      have "0 \<le> c + 1" "index + 64 = 64 * (c + 1)"
        using less.prems by simp_all
      from less.hyps [OF m this lt]
      obtain found c' index' where
        r: "skip_zero_chunks (chunks bs) (capacity bs) (c + 1) (index + 64) = Inr (found, c', index')"
          "\<forall>p. index + 64 \<le> p \<and> p < index' \<longrightarrow> \<not> test_bit bs p"
          "index' = 64 * c'" "c + 1 \<le> c'"
          "if found then index' < capacity bs \<and> chunks bs ! nat c' \<noteq> 0 else capacity bs \<le> index'"
        by blast
      have "\<not> test_bit bs p" if "index \<le> p" "p < index'" for p
      proof (cases "p < index + 64")
        case True
        with that none show ?thesis by simp
      next
        case False
        with that r(2) show ?thesis by simp
      qed
      then have a: "\<forall>p. index \<le> p \<and> p < index' \<longrightarrow> \<not> test_bit bs p" by simp
      have b: "skip_zero_chunks (chunks bs) (capacity bs) c index = Inr (found, c', index')"
        using eq ld zero ovf False r(1) by simp
      have c: "c \<le> c'" using r(4) by simp
      from a b c r(3,5) show ?thesis by blast
    qed
  qed
qed

lemma mask_test: "n < 64 \<Longrightarrow> (2 ^ n AND w \<noteq> 0) = bit w n" for w :: "64 word"
  by (simp add: and.commute [of "2 ^ n" w] and_exp_eq_0_iff_not_bit)

lemma mask_shift: "push_bit 1 (2 ^ n :: 64 word) = 2 ^ (n + 1)"
  by (simp add: push_bit_eq_mult)

lemma mask_overflow: "n < 64 \<Longrightarrow> (2 ^ (n + 1) :: 64 word) = 0 \<longleftrightarrow> n = 63"
proof
  assume "n = 63"
  then show "(2 ^ (n + 1) :: 64 word) = 0" by simp
next
  assume n: "n < 64" and z: "(2 ^ (n + 1) :: 64 word) = 0"
  show "n = 63"
  proof (rule ccontr)
    assume "n \<noteq> 63"
    with n have "n + 1 < 64" by simp
    then have "bit (2 ^ (n + 1) :: 64 word) (n + 1)"
      unfolding bit_exp_iff by simp
    with z show False by simp
  qed
qed

lemma next_in_word:
  fixes index :: int
  assumes "0 \<le> index" "index mod 64 \<noteq> 63"
  shows "(index + 1) div 64 = index div 64" "nat ((index + 1) mod 64) = nat (index mod 64) + 1"
proof -
  obtain q r where c: "index = 64 * q + r" "0 \<le> r" "r < 64" and q: "index div 64 = q" and r: "index mod 64 = r"
    using divmod_64 by blast
  have e: "index + 1 = 64 * q + (r + 1)" using c by simp
  have b: "0 \<le> r + 1" "r + 1 < 64" using c assms(2) r by simp_all
  from e b have "(index + 1) div 64 = q" by (rule int_div_pos_eq)
  with q show "(index + 1) div 64 = index div 64" by simp
  from e b have "(index + 1) mod 64 = r + 1" by (rule int_mod_pos_eq)
  with r c show "nat ((index + 1) mod 64) = nat (index mod 64) + 1" by simp
qed

lemma next_word_start:
  fixes index :: int
  assumes "index mod 64 = 63"
  shows "index + 1 = 64 * (index div 64 + 1)"
proof -
  obtain q r where c: "index = 64 * q + r" and q: "index div 64 = q" and r: "index mod 64 = r"
    using divmod_64 by blast
  with assms show ?thesis by simp
qed

lemma ragged_not_word_start:
  assumes "ragged bs" "i \<le> capacity bs" "i = 64 * c"
  shows "i < capacity bs"
proof -
  have "capacity bs \<noteq> 64 * c"
  proof
    assume "capacity bs = 64 * c"
    then have "capacity bs mod 64 = 0" by simp
    with assms(1) show False by (simp add: ragged_def)
  qed
  with assms show ?thesis by simp
qed

lemma word_start_divmod: "(64 * c) div 64 = c" "(64 * c) mod 64 = 0" for c :: int
  by simp_all

lemma is_next_skip:
  assumes "is_next bs j r" "k \<le> j" "\<forall>p. k \<le> p \<and> p < j \<longrightarrow> \<not> test_bit bs p"
  shows "is_next bs k r"
proof -
  have gap: "\<not> test_bit bs p" if "k \<le> p" "p < j" for p
    using assms(3) that by simp
  from assms(1) consider
      (none) "r = - 1" "\<forall>p. j \<le> p \<and> p < capacity bs \<longrightarrow> \<not> test_bit bs p"
    | (some) "j \<le> r" "r < capacity bs" "test_bit bs r" "\<forall>p. j \<le> p \<and> p < r \<longrightarrow> \<not> test_bit bs p"
    unfolding is_next_def by blast
  then show ?thesis
  proof cases
    case none
    have "\<not> test_bit bs p" if "k \<le> p" "p < capacity bs" for p
    proof (cases "p < j")
      case True
      with that gap show ?thesis by simp
    next
      case False
      with that none(2) show ?thesis by simp
    qed
    with none(1) show ?thesis unfolding is_next_def by simp
  next
    case some
    have "\<not> test_bit bs p" if "k \<le> p" "p < r" for p
    proof (cases "p < j")
      case True
      with that gap show ?thesis by simp
    next
      case False
      with that some(4) show ?thesis by simp
    qed
    moreover have "k \<le> r" using assms(2) some(1) by simp
    ultimately show ?thesis using some(2,3) unfolding is_next_def by simp
  qed
qed

lemma next_set_bit_loop_spec:
  assumes "ragged bs" "0 \<le> index"
  shows "\<exists>r. next_set_bit_loop bs (index div 64) (2 ^ nat (index mod 64)) index = Inr r \<and>
             is_next bs index r"
  using assms(2)
proof (induction "nat (capacity bs - index)" arbitrary: index rule: less_induct)
  case less
  let ?c = "index div 64" and ?n = "nat (index mod 64)"
  note eq = next_set_bit_loop.simps [of bs ?c "2 ^ ?n" index]
  show ?case
  proof (cases "index < capacity bs")
    case False
    with eq have "next_set_bit_loop bs ?c (2 ^ ?n) index = Inr (- 1)" by simp
    moreover from False have "is_next bs index (- 1)" by (auto simp: is_next_def)
    ultimately show ?thesis by blast
  next
    case lt: True
    have n: "?n < 64" by (simp add: nat_less_iff)
    have inb: "0 \<le> ?c" "?c < int (length (chunks bs))"
      using valid_index_offset [of bs index] assms(1) less.prems lt by (simp_all add: ragged_def)
    then have ld: "load (chunks bs) ?c = Inr (chunks bs ! nat ?c)"
      by (simp add: load_def)
    have tst: "(2 ^ ?n AND chunks bs ! nat ?c \<noteq> 0) = test_bit bs index"
      using n by (simp only: mask_test test_bit_def)
    show ?thesis
    proof (cases "test_bit bs index")
      case True
      with eq lt ld tst have "next_set_bit_loop bs ?c (2 ^ ?n) index = Inr index" by simp
      moreover from True lt have "is_next bs index index" by (auto simp: is_next_def)
      ultimately show ?thesis by blast
    next
      case miss: False
      have only: "\<forall>p. index \<le> p \<and> p < index + 1 \<longrightarrow> \<not> test_bit bs p"
      proof (intro allI impI)
        fix p
        assume "index \<le> p \<and> p < index + 1"
        then have "p = index" by simp
        with miss show "\<not> test_bit bs p" by simp
      qed
      have m: "nat (capacity bs - (index + 1)) < nat (capacity bs - index)"
        using lt by simp
      show ?thesis
      proof (cases "index mod 64 = 63")
        case False
        then have "?n \<noteq> 63" using n by simp
        then have nz: "push_bit 1 (2 ^ ?n :: 64 word) \<noteq> 0"
          using mask_overflow [OF n] by (simp only: mask_shift) simp
        have "next_set_bit_loop bs ?c (2 ^ ?n) index =
              next_set_bit_loop bs ((index + 1) div 64) (2 ^ nat ((index + 1) mod 64)) (index + 1)"
          using eq lt ld tst miss nz next_in_word [OF less.prems False]
          by (simp only: mask_shift) simp
        moreover have "0 \<le> index + 1" using less.prems by simp
        with m obtain r where
          r: "next_set_bit_loop bs ((index + 1) div 64) (2 ^ nat ((index + 1) mod 64)) (index + 1) = Inr r"
            "is_next bs (index + 1) r"
          using less.hyps by blast
        have "is_next bs index r"
          using is_next_skip [OF r(2) _ only] by simp
        ultimately show ?thesis using r(1) by simp
      next
        case True
        then have "?n = 63" by simp
        then have z: "push_bit 1 (2 ^ ?n :: 64 word) = 0" by simp
        have ws: "index + 1 = 64 * (?c + 1)" using next_word_start [OF True] .
        have lt1: "index + 1 < capacity bs"
          using ragged_not_word_start [OF assms(1) _ ws] lt by simp
        from skip_zero_chunks_spec [OF assms(1) _ ws lt1] inb(1)
        obtain found c' index' where
          sk: "skip_zero_chunks (chunks bs) (capacity bs) (?c + 1) (index + 1) = Inr (found, c', index')"
            "\<forall>p. index + 1 \<le> p \<and> p < index' \<longrightarrow> \<not> test_bit bs p"
            "index' = 64 * c'" "?c + 1 \<le> c'"
            "if found then index' < capacity bs \<and> chunks bs ! nat c' \<noteq> 0 else capacity bs \<le> index'"
          by auto
        have le: "index + 1 \<le> index'" using sk(3,4) ws by simp
        have gap: "\<forall>p. index \<le> p \<and> p < index' \<longrightarrow> \<not> test_bit bs p"
        proof (intro allI impI)
          fix p
          assume p: "index \<le> p \<and> p < index'"
          show "\<not> test_bit bs p"
          proof (cases "p < index + 1")
            case True
            with p only show ?thesis by simp
          next
            case False
            with p sk(2) show ?thesis by simp
          qed
        qed
        show ?thesis
        proof (cases found)
          case False
          with eq lt ld tst miss z sk(1)
          have "next_set_bit_loop bs ?c (2 ^ ?n) index = Inr (- 1)" by simp
          moreover from False sk(5) gap have "is_next bs index (- 1)"
            by (auto simp: is_next_def)
          ultimately show ?thesis by blast
        next
          case fnd: True
          with eq lt ld tst miss z sk(1)
          have e1: "next_set_bit_loop bs ?c (2 ^ ?n) index = next_set_bit_loop bs c' 1 index'" by simp
          have "nat (capacity bs - index') < nat (capacity bs - index)"
            using le lt by simp
          moreover have "0 \<le> index'" using le less.prems by simp
          ultimately obtain r where
            r: "next_set_bit_loop bs (index' div 64) (2 ^ nat (index' mod 64)) index' = Inr r"
              "is_next bs index' r"
            using less.hyps by blast
          have "index' div 64 = c'" "index' mod 64 = 0"
            using sk(3) by (simp_all only: word_start_divmod)
          with r(1) e1 have "next_set_bit_loop bs ?c (2 ^ ?n) index = Inr r" by simp
          moreover have "is_next bs index r"
            using is_next_skip [OF r(2) _ gap] le by simp
          ultimately show ?thesis by blast
        qed
      qed
    qed
  qed
qed

lemma start_position:
  assumes "0 \<le> k"
  shows "drop_bit 6 k = k div 64" "push_bit (nat (k AND 63)) (1 :: 64 word) = 2 ^ nat (k mod 64)"
proof -
  show "drop_bit 6 k = k div 64" by (simp add: drop_bit_eq_div)
  have "k AND 63 = k AND mask 6" by (simp add: mask_eq_exp_minus_1)
  also have "\<dots> = k mod 64" by (simp add: take_bit_eq_mod flip: take_bit_eq_mask)
  finally show "push_bit (nat (k AND 63)) (1 :: 64 word) = 2 ^ nat (k mod 64)" by simp
qed

lemma bitset_next_set_bit_spec:
  assumes "ragged bs" "0 \<le> k"
  shows "\<exists>r. bitset_next_set_bit bs k = Inr r \<and> is_next bs k r"
  using next_set_bit_loop_spec [OF assms] start_position [OF assms(2)]
  by (simp add: bitset_next_set_bit_def)

lemma set_from_none:
  assumes "\<forall>p. k \<le> p \<and> p < capacity bs \<longrightarrow> \<not> test_bit bs p"
  shows "set_from bs k = []"
  using assms by (auto simp: set_from_def filter_empty_conv)

lemma set_from_some:
  assumes "k \<le> r" "r < capacity bs" "test_bit bs r" "\<forall>p. k \<le> p \<and> p < r \<longrightarrow> \<not> test_bit bs p"
  shows "set_from bs k = r # set_from bs (r + 1)"
proof -
  have "[k..capacity bs - 1] = [k..r - 1] @ r # [r + 1..capacity bs - 1]"
    using assms(1,2) by (intro upto_split3) simp_all
  moreover have "filter (test_bit bs) [k..r - 1] = []"
    using assms(4) by (auto simp: filter_empty_conv)
  ultimately show ?thesis
    using assms(3) by (simp add: set_from_def)
qed

lemma is_next_set_from:
  assumes "is_next bs k r"
  shows "r = (case set_from bs k of [] \<Rightarrow> - 1 | x # _ \<Rightarrow> x)"
  using assms set_from_none [of k bs] set_from_some [of k r bs]
  unfolding is_next_def by auto

lemma enumerate2_elems_spec:
  assumes "ragged bs" "0 \<le> k"
  shows "enumerate2_elems bs k = (set_from bs k, None)"
  using assms(2)
proof (induction "nat (capacity bs - k)" arbitrary: k rule: less_induct)
  case less
  obtain r where r: "bitset_next_set_bit bs k = Inr r" "is_next bs k r"
    using bitset_next_set_bit_spec [OF assms(1) less.prems] by blast
  note eq = enumerate2_elems.simps [of bs k]
  from r(2) consider
      (none) "r = - 1" "\<forall>p. k \<le> p \<and> p < capacity bs \<longrightarrow> \<not> test_bit bs p"
    | (some) "k \<le> r" "r < capacity bs" "test_bit bs r" "\<forall>p. k \<le> p \<and> p < r \<longrightarrow> \<not> test_bit bs p"
    unfolding is_next_def by blast
  then show ?case
  proof cases
    case none
    with eq r(1) set_from_none [OF none(2)] show ?thesis by simp
  next
    case some
    have "nat (capacity bs - (r + 1)) < nat (capacity bs - k)"
      using some(1,2) by simp
    moreover have "0 \<le> r + 1" using some(1) less.prems by simp
    ultimately have "enumerate2_elems bs (r + 1) = (set_from bs (r + 1), None)"
      using less.hyps by blast
    moreover have "0 \<le> r" using some(1) less.prems by simp
    ultimately show ?thesis
      using eq r(1) set_from_some [OF some] by simp
  qed
qed

lemma cursor_at_begin: "cursor_at bs (- 1) (bitset_iter_begin bs)"
  by (simp add: cursor_at_def bitset_iter_begin_def)

lemma padding_bit_clear:
  assumes "ragged bs" "padding_zero bs"
  shows "\<not> test_bit bs (capacity bs)"
proof -
  let ?p = "nat (capacity bs)"
  have c: "0 \<le> capacity bs" using assms(1) by (simp add: ragged_def)
  obtain q r where d: "capacity bs = 64 * q + r" "0 \<le> r" "r < 64" and q: "capacity bs div 64 = q"
    using divmod_64 by blast
  have "int (length (chunks bs)) = q + 1"
    using ragged_length [OF assms(1)] q by simp
  then have "capacity bs < 64 * int (length (chunks bs))"
    using d by simp
  then have "?p < 64 * length (chunks bs)"
    using c by (simp add: nat_less_iff)
  with assms(2) c have "\<not> storage_bit bs ?p"
    by (simp add: padding_zero_def)
  moreover have "?p div 64 = nat (capacity bs div 64)" "?p mod 64 = nat (capacity bs mod 64)"
    using c by (simp_all add: nat_div_distrib nat_mod_distrib)
  ultimately show ?thesis
    by (simp add: storage_bit_def test_bit_def)
qed

lemma iter_step_same_word:
  "push_bit 1 (iter_mask bsi) \<noteq> 0 \<Longrightarrow>
   iter_step ws bsi =
     Inr (True, bsi\<lparr>iter_mask := push_bit 1 (iter_mask bsi), iter_index := iter_index bsi + 1\<rparr>)"
  by (simp add: iter_step_def Let_def)

lemma iter_step_new_word:
  "push_bit 1 (iter_mask bsi) = 0 \<Longrightarrow>
   iter_step ws bsi =
     (case skip_zero_chunks ws (iter_capacity bsi) (iter_chunk bsi + 1) (iter_index bsi + 1) of
        Inl e \<Rightarrow> Inl e
      | Inr (found, c, i) \<Rightarrow> Inr (found, bsi\<lparr>iter_mask := 1, iter_chunk := c, iter_index := i\<rparr>))"
  by (simp add: iter_step_def Let_def split: sum.splits prod.splits)

lemma iter_step_in_word:
  assumes "cursor_at bs i bsi" "0 \<le> i" "i mod 64 \<noteq> 63"
  shows "\<exists>bsi'. iter_step ws bsi = Inr (True, bsi') \<and> cursor_at bs (i + 1) bsi'"
proof -
  let ?n = "nat (i mod 64)"
  have n: "?n < 64" by (simp add: nat_less_iff)
  from assms(3) have "?n \<noteq> 63" by simp
  with mask_overflow [OF n] have nz: "(2 ^ (?n + 1) :: 64 word) \<noteq> 0" by simp
  have m: "iter_mask bsi = 2 ^ ?n" using assms(1,2) by (simp add: cursor_at_def)
  have pb: "push_bit 1 (iter_mask bsi) = 2 ^ (?n + 1)" by (simp only: m mask_shift)
  have ix: "iter_index bsi = i" using assms(1) by (simp add: cursor_at_def)
  let ?b = "bsi\<lparr>iter_mask := 2 ^ (?n + 1), iter_index := i + 1\<rparr>"
  have "push_bit 1 (iter_mask bsi) \<noteq> 0" using nz by (simp only: pb not_False_eq_True)
  from iter_step_same_word [OF this, of ws] have "iter_step ws bsi = Inr (True, ?b)"
    by (simp only: pb ix)
  moreover have "cursor_at bs (i + 1) ?b"
    using assms(1,2) next_in_word [OF assms(2,3)] by (simp add: cursor_at_def)
  ultimately show ?thesis by blast
qed

lemma cursor_word_end:
  assumes "- 1 \<le> i" "i mod 64 = 63" "cursor_at bs i bsi"
  shows "push_bit 1 (iter_mask bsi) = 0"
proof (cases "i < 0")
  case True
  with assms(3) show ?thesis by (simp add: cursor_at_def)
next
  case False
  with assms(2,3) show ?thesis by (simp add: cursor_at_def)
qed

lemma iter_step_next_word:
  assumes "ragged bs" "cursor_at bs i bsi" "- 1 \<le> i" "i < capacity bs" "i mod 64 = 63"
  shows "\<exists>found bsi' j.
           iter_step (chunks bs) bsi = Inr (found, bsi') \<and> i + 1 \<le> j \<and>
           (\<forall>p. i + 1 \<le> p \<and> p < j \<longrightarrow> \<not> test_bit bs p) \<and>
           iter_index bsi' = j \<and> iter_capacity bsi' = capacity bs \<and>
           (if found then j < capacity bs \<and> j mod 64 = 0 \<and> cursor_at bs j bsi' else capacity bs \<le> j)"
proof -
  have z: "push_bit 1 (iter_mask bsi) = 0"
    using cursor_word_end [OF assms(3,5,2)] .
  have ws: "i + 1 = 64 * (i div 64 + 1)" using next_word_start [OF assms(5)] .
  have lt1: "i + 1 < capacity bs"
    using ragged_not_word_start [OF assms(1) _ ws] assms(4) by simp
  have c0: "0 \<le> i div 64 + 1"
  proof -
    have "- 1 \<le> i div 64" using assms(3) by (simp add: zdiv_mono1 [of "- 1" i 64, simplified])
    then show ?thesis by simp
  qed
  from skip_zero_chunks_spec [OF assms(1) c0 ws lt1]
  obtain found c' index' where
    sk: "skip_zero_chunks (chunks bs) (capacity bs) (i div 64 + 1) (i + 1) = Inr (found, c', index')"
      "\<forall>p. i + 1 \<le> p \<and> p < index' \<longrightarrow> \<not> test_bit bs p"
      "index' = 64 * c'" "i div 64 + 1 \<le> c'"
      "if found then index' < capacity bs \<and> chunks bs ! nat c' \<noteq> 0 else capacity bs \<le> index'"
    by blast
  let ?b = "bsi\<lparr>iter_mask := 1, iter_chunk := c', iter_index := index'\<rparr>"
  have "iter_capacity bsi = capacity bs" "iter_chunk bsi = i div 64" "iter_index bsi = i"
    using assms(2) by (simp_all add: cursor_at_def)
  with sk(1) have st: "iter_step (chunks bs) bsi = Inr (found, ?b)"
    by (simp add: iter_step_new_word [OF z])
  have le: "i + 1 \<le> index'" using sk(3,4) ws by simp
  have dm: "index' div 64 = c'" "index' mod 64 = 0"
    using sk(3) by (simp_all only: word_start_divmod)
  have ge0: "0 \<le> index'" using le assms(3) by simp
  have cur: "cursor_at bs index' ?b"
    using assms(2) dm ge0 by (simp add: cursor_at_def)
  have cap: "iter_capacity ?b = capacity bs" using assms(2) by (simp add: cursor_at_def)
  show ?thesis
  proof (cases found)
    case True
    with st le sk(2,5) dm cur cap show ?thesis
      by (intro exI [of _ True] exI [of _ ?b] exI [of _ index']) simp
  next
    case False
    with st le sk(2,5) cap show ?thesis
      by (intro exI [of _ False] exI [of _ ?b] exI [of _ index']) simp
  qed
qed

lemma cursor_load:
  assumes "ragged bs" "cursor_at bs j b" "0 \<le> j" "j \<le> capacity bs"
  shows "load (chunks bs) (iter_chunk b) = Inr (chunks bs ! nat (j div 64))"
    "(iter_mask b AND chunks bs ! nat (j div 64) \<noteq> 0) = test_bit bs j"
proof -
  have "j div 64 \<le> capacity bs div 64" using assms(4) by (rule zdiv_mono1) simp
  moreover have "0 \<le> j div 64" using assms(3) by (simp add: pos_imp_zdiv_nonneg_iff)
  ultimately show "load (chunks bs) (iter_chunk b) = Inr (chunks bs ! nat (j div 64))"
    using ragged_length [OF assms(1)] assms(2) by (simp add: load_def cursor_at_def)
  have n: "nat (j mod 64) < 64" by (simp add: nat_less_iff)
  have "iter_mask b = 2 ^ nat (j mod 64)" using assms(2,3) by (simp add: cursor_at_def)
  then show "(iter_mask b AND chunks bs ! nat (j div 64) \<noteq> 0) = test_bit bs j"
    using n by (simp only: mask_test test_bit_def)
qed

lemma bitset_iter_next_spec:
  assumes "ragged bs" "padding_zero bs"
  shows "cursor_at bs i bsi \<Longrightarrow> - 1 \<le> i \<Longrightarrow> i \<le> capacity bs \<Longrightarrow>
         \<exists>r bsi'. bitset_iter_next (chunks bs) bsi = Inr (r, bsi') \<and> is_next bs (i + 1) r \<and>
           iter_capacity bsi' = capacity bs \<and>
           (if r < 0 then capacity bs \<le> iter_index bsi' else cursor_at bs r bsi')"
proof (induction "nat (capacity bs - i)" arbitrary: i bsi rule: less_induct)
  case less
  note eq = bitset_iter_next.simps [of "chunks bs" bsi]
  have ix: "iter_index bsi = i" and cp: "iter_capacity bsi = capacity bs"
    using less.prems(1) by (simp_all add: cursor_at_def)
  show ?case
  proof (cases "i < capacity bs")
    case False
    with less.prems(3) have "i = capacity bs" by simp
    with eq ix cp have "bitset_iter_next (chunks bs) bsi = Inr (- 1, bsi)" by simp
    moreover have "is_next bs (i + 1) (- 1)"
      using \<open>i = capacity bs\<close> by (auto simp: is_next_def)
    ultimately show ?thesis
      using cp ix \<open>i = capacity bs\<close> by (intro exI [of _ "- 1"] exI [of _ bsi]) simp
  next
    case lt: True
    have "\<exists>go b j. iter_step (chunks bs) bsi = Inr (go, b) \<and> i + 1 \<le> j \<and>
            (\<forall>p. i + 1 \<le> p \<and> p < j \<longrightarrow> \<not> test_bit bs p) \<and>
            iter_index b = j \<and> iter_capacity b = capacity bs \<and>
            (if go then j \<le> capacity bs \<and> cursor_at bs j b else capacity bs \<le> j)"
    proof (cases "i mod 64 = 63")
      case True
      from iter_step_next_word [OF assms(1) less.prems(1,2) lt True]
      obtain found b j where
        "iter_step (chunks bs) bsi = Inr (found, b)" "i + 1 \<le> j"
        "\<forall>p. i + 1 \<le> p \<and> p < j \<longrightarrow> \<not> test_bit bs p"
        "iter_index b = j" "iter_capacity b = capacity bs"
        "if found then j < capacity bs \<and> j mod 64 = 0 \<and> cursor_at bs j b else capacity bs \<le> j"
        by blast
      then show ?thesis
        by (intro exI [of _ found] exI [of _ b] exI [of _ j]) (simp split: if_splits)
    next
      case False
      then have "i \<noteq> - 1" by auto
      with less.prems(2) have i0: "0 \<le> i" by simp
      from iter_step_in_word [OF less.prems(1) i0 False, of "chunks bs"]
      obtain b where b: "iter_step (chunks bs) bsi = Inr (True, b)" "cursor_at bs (i + 1) b"
        by blast
      moreover have "\<forall>p. i + 1 \<le> p \<and> p < i + 1 \<longrightarrow> \<not> test_bit bs p" by auto
      ultimately show ?thesis
        using lt by (intro exI [of _ True] exI [of _ b] exI [of _ "i + 1"]) (simp add: cursor_at_def)
    qed
    then obtain go b j where
      st: "iter_step (chunks bs) bsi = Inr (go, b)" and le: "i + 1 \<le> j" and
      gap: "\<forall>p. i + 1 \<le> p \<and> p < j \<longrightarrow> \<not> test_bit bs p" and
      bj: "iter_index b = j" "iter_capacity b = capacity bs" and
      fin: "if go then j \<le> capacity bs \<and> cursor_at bs j b else capacity bs \<le> j"
      by blast
    show ?thesis
    proof (cases go)
      case False
      with eq ix cp lt st have "bitset_iter_next (chunks bs) bsi = Inr (- 1, b)" by simp
      moreover have "is_next bs (i + 1) (- 1)"
        using False fin gap by (auto simp: is_next_def)
      ultimately show ?thesis
        using bj fin False by (intro exI [of _ "- 1"] exI [of _ b]) simp
    next
      case go: True
      with fin have jc: "j \<le> capacity bs" and cur: "cursor_at bs j b" by simp_all
      have j0: "0 \<le> j" using le less.prems(2) by simp
      note ld = cursor_load [OF assms(1) cur j0 jc]
      show ?thesis
      proof (cases "test_bit bs j")
        case True
        with padding_bit_clear [OF assms] jc have jlt: "j < capacity bs"
          by (cases "j = capacity bs") auto
        from eq ix cp lt st go ld True bj
        have "bitset_iter_next (chunks bs) bsi = Inr (j, b)" by simp
        moreover have "is_next bs (i + 1) j"
          using True jlt le gap by (auto simp: is_next_def)
        ultimately show ?thesis
          using bj cur j0 by (intro exI [of _ j] exI [of _ b]) simp
      next
        case miss: False
        from eq ix cp lt st go ld miss
        have e1: "bitset_iter_next (chunks bs) bsi = bitset_iter_next (chunks bs) b" by simp
        have "nat (capacity bs - j) < nat (capacity bs - i)" using le lt by simp
        moreover have "- 1 \<le> j" using j0 by simp
        ultimately obtain r bsi' where
          r: "bitset_iter_next (chunks bs) b = Inr (r, bsi')" "is_next bs (j + 1) r"
            "iter_capacity bsi' = capacity bs"
            "if r < 0 then capacity bs \<le> iter_index bsi' else cursor_at bs r bsi'"
          using less.hyps [OF _ cur _ jc] by blast
        have gap': "\<forall>p. i + 1 \<le> p \<and> p < j + 1 \<longrightarrow> \<not> test_bit bs p"
        proof (intro allI impI)
          fix p
          assume p: "i + 1 \<le> p \<and> p < j + 1"
          show "\<not> test_bit bs p"
          proof (cases "p < j")
            case True
            with p gap show ?thesis by simp
          next
            case False
            with p have "p = j" by simp
            with miss show ?thesis by simp
          qed
        qed
        have "is_next bs (i + 1) r"
          using is_next_skip [OF r(2) _ gap'] le by simp
        with e1 r show ?thesis by (intro exI [of _ r] exI [of _ bsi']) simp
      qed
    qed
  qed
qed

lemma enumerate_elems_spec:
  assumes "ragged bs" "padding_zero bs"
  shows "cursor_at bs i bsi \<Longrightarrow> - 1 \<le> i \<Longrightarrow> i \<le> capacity bs \<Longrightarrow>
         enumerate_elems (chunks bs) bsi = (set_from bs (i + 1), None)"
proof (induction "nat (capacity bs - i)" arbitrary: i bsi rule: less_induct)
  case less
  from bitset_iter_next_spec [OF assms less.prems]
  obtain r bsi' where
    r: "bitset_iter_next (chunks bs) bsi = Inr (r, bsi')" "is_next bs (i + 1) r"
      "if r < 0 then capacity bs \<le> iter_index bsi' else cursor_at bs r bsi'"
    by blast
  note eq = enumerate_elems.simps [of "chunks bs" bsi]
  from r(2) consider
      (none) "r = - 1" "\<forall>p. i + 1 \<le> p \<and> p < capacity bs \<longrightarrow> \<not> test_bit bs p"
    | (some) "i + 1 \<le> r" "r < capacity bs" "test_bit bs r"
        "\<forall>p. i + 1 \<le> p \<and> p < r \<longrightarrow> \<not> test_bit bs p"
    unfolding is_next_def by blast
  then show ?case
  proof cases
    case none
    with eq r(1) set_from_none [OF none(2)] show ?thesis by simp
  next
    case some
    have r0: "0 \<le> r" using some(1) less.prems(2) by simp
    with r(3) have cur: "cursor_at bs r bsi'" by simp
    have "nat (capacity bs - r) < nat (capacity bs - i)"
      using some(1,2) by simp
    moreover have "- 1 \<le> r" "r \<le> capacity bs" using r0 some(2) by simp_all
    ultimately have "enumerate_elems (chunks bs) bsi' = (set_from bs (r + 1), None)"
      using less.hyps [OF _ cur] by blast
    with eq r(1) r0 set_from_some [OF some] show ?thesis by simp
  qed
qed

lemma set_indices_set:
  "set (set_indices bs) = {i. 0 \<le> i \<and> i < capacity bs \<and> test_bit bs i}"
  by (auto simp: set_indices_def set_from_def)

lemma set_indices_ascending: "sorted_wrt (<) (set_indices bs)"
  by (simp add: set_indices_def set_from_def sorted_wrt_filter sorted_wrt_upto
      flip: strict_sorted_iff)

lemma set_from_filter: "0 \<le> k \<Longrightarrow> set_from bs k = filter (\<lambda>x. k \<le> x) (set_indices bs)"
proof -
  assume k: "0 \<le> k"
  have "filter (\<lambda>x. k \<le> x) [0..capacity bs - 1] = [k..capacity bs - 1]"
  proof (cases "k \<le> capacity bs - 1")
    case True
    then have "[0..capacity bs - 1] = [0..k - 1] @ [k..capacity bs - 1]"
      using k by (intro upto_split1) simp_all
    moreover have "filter (\<lambda>x. k \<le> x) [0..k - 1] = []"
      by (auto simp: filter_empty_conv)
    moreover have "filter (\<lambda>x. k \<le> x) [k..capacity bs - 1] = [k..capacity bs - 1]"
      by (auto simp: filter_id_conv)
    ultimately show ?thesis by simp
  next
    case False
    then show ?thesis by (auto simp: filter_empty_conv)
  qed
  then have "set_from bs k = filter (test_bit bs) (filter (\<lambda>x. k \<le> x) [0..capacity bs - 1])"
    by (simp add: set_from_def)
  also have "\<dots> = filter (\<lambda>x. k \<le> x) (filter (test_bit bs) [0..capacity bs - 1])"
    by (simp add: conj_commute)
  finally show ?thesis by (simp add: set_indices_def set_from_def)
qed

lemma test_bit_get:
  "layout_ok bs \<Longrightarrow> 0 \<le> i \<Longrightarrow> i < capacity bs \<Longrightarrow> bitset_get bs i = Inr (test_bit bs i)"
  by (simp add: bitset_get_valid test_bit_def)

text \<open>
  On a bitset whose capacity is not a multiple of 64 the restarted stateless scan reads
  inside the block only and produces exactly the set indices, in ascending order.
\<close>

theorem scan_enumerates:
  assumes "ragged bs"
  shows "enumerate2_elems bs 0 = (set_indices bs, None)"
  using enumerate2_elems_spec [OF assms, of 0] by (simp add: set_indices_def)

text \<open>
  So does the cursor, given that the bits beyond \<open>capacity\<close> in the last word are 0
  (it tests the bit at position \<open>capacity\<close> before it compares the index).
\<close>

theorem cursor_enumerates:
  assumes "ragged bs" "padding_zero bs"
  shows "enumerate_elems (chunks bs) (bitset_iter_begin bs) = (set_indices bs, None)"
  using enumerate_elems_spec [OF assms cursor_at_begin] assms(1)
  by (simp add: set_indices_def ragged_def)

text \<open>
  And one call of the stateless scan from any \<open>k \<ge> 0\<close> returns the first element of that
  enumeration at or above \<open>k\<close>, or -1.
\<close>

theorem next_set_bit_first:
  assumes "ragged bs" "0 \<le> k"
  shows "bitset_next_set_bit bs k =
           Inr (case filter (\<lambda>x. k \<le> x) (set_indices bs) of [] \<Rightarrow> - 1 | x # _ \<Rightarrow> x)"
  using bitset_next_set_bit_spec [OF assms] is_next_set_from [of bs k] set_from_filter [OF assms(2), of bs]
  by auto

text \<open>
  The three statements at the bitset of capacity 10 with the bits 0, 3 and 9 set.
\<close>

theorem cursor_enumerates_example:
  "ragged (with_chunks 10 [521]) \<and> padding_zero (with_chunks 10 [521]) \<and>
   set_indices (with_chunks 10 [521]) = [0, 3, 9] \<and>
   enumerate_elems [521] (bitset_iter_begin (with_chunks 10 [521])) = ([0, 3, 9], None) \<and>
   enumerate2_elems (with_chunks 10 [521]) 0 = ([0, 3, 9], None) \<and>
   bitset_next_set_bit (with_chunks 10 [521]) 4 = Inr 9"
proof -
  let ?bs = "with_chunks 10 [521]"
  have r: "ragged ?bs"
    by (simp add: ragged_def layout_ok_def with_chunks_def signed_divide_int_def
        signed_modulo_int_def INT_MAX_def)
  have p: "padding_zero ?bs" by code_simp
  have s: "set_indices ?bs = [0, 3, 9]" by code_simp
  from cursor_enumerates [OF r p] scan_enumerates [OF r] next_set_bit_first [OF r, of 4] r p s
  show ?thesis by (simp add: with_chunks_def)
qed

text \<open>
  The one-word block of capacity 64 with bit 0 set, followed in memory by any word \<open>g\<close>:
  the stateless scan from 1 reads \<open>g\<close> and returns -1 whatever it is.
\<close>

lemma stray_word_ignored_by_scan:
  "bitset_next_set_bit \<lparr>capacity = 64, nchunks = 1, chunks = [1, g]\<rparr> 1 = Inr (- 1)"
  by (simp add: bitset_next_set_bit_def next_set_bit_loop.simps load_def skip_zero_chunks.simps
      INT_MAX_def)

section \<open>The claims\<close>

text \<open>
  C1. Repeated calls of either scan are claimed to produce, before the first "none",
  exactly the set indices in ascending order, for every bitset. At capacity 64 with only
  bit 63 set the stateless scan does (\<open>[63]\<close>, then -1). The cursor returns 63 and, on
  the next call, shifts its mask out of the word, steps to the word after the block and
  reads it before any comparison with \<open>capacity\<close>: the read is outside the one allocated
  word. The last line runs the same cursor over the block followed by a word whose bit 0
  is set: the cursor then returns 64, which is no index of the bitset. Where the capacity
  is not a multiple of 64 both forms do what the claim says (\<open>scan_enumerates\<close>,
  \<open>cursor_enumerates\<close>).
\<close>

theorem cursor_runs_off_block:
  "construct 64 [Set 63] = Inr (with_chunks 64 [9223372036854775808]) \<and>
   enumerate2_elems (with_chunks 64 [9223372036854775808]) 0 = ([63], None) \<and>
   enumerate_elems [9223372036854775808] (bitset_iter_begin (with_chunks 64 [9223372036854775808])) =
     ([63], Some OutOfBounds) \<and>
   enumerate_elems [9223372036854775808, 1] (bitset_iter_begin (with_chunks 64 [9223372036854775808])) =
     ([63, 64], None)"
  by code_simp

text \<open>
  C2. Set, Clear and Test are claimed to signal \<open>IndexOutOfRange\<close> for every index
  below 0 or at or above \<open>capacity\<close>. \<open>index_check\<close> compares with \<open>capacity\<close> only
  (its message names the range \<open>[0, capacity)\<close>): index -64 passes it and the three
  operations go on to word \<open>-64 / 64 = -1\<close> of the block; index -1 passes it and reaches
  a shift by \<open>-1 % 64 = -1\<close>. An index at or above \<open>capacity\<close> is rejected
  (\<open>index_above_rejected\<close>); no negative index is (\<open>index_negative_not_rejected\<close>).
\<close>

theorem negative_index_passes_check:
  "construct 10 [] = Inr (with_chunks 10 [0]) \<and>
   index_check (with_chunks 10 [0]) (- 64) = Inr () \<and>
   bitset_set (with_chunks 10 [0]) (- 64) = Inl OutOfBounds \<and>
   bitset_clear (with_chunks 10 [0]) (- 64) = Inl OutOfBounds \<and>
   bitset_get (with_chunks 10 [0]) (- 64) = Inl OutOfBounds \<and>
   bitset_set (with_chunks 10 [0]) (- 1) = Inl ShiftOutOfRange \<and>
   bitset_set (with_chunks 10 [0]) 10 = Inl IndexOutOfRange"
  by code_simp

text \<open>
  C3. At the capacities 1, 63, 64, 65 and 128 both scans are claimed never to read a word
  outside the block and never to return an index at or above \<open>capacity\<close>. At capacity 64
  the stateless scan of the empty bitset walks the 64 bits of word 0 and then reads word
  1 of a one-word block. At capacity 128 with bit 64 set both scans return 64 and then
  read word 2 of a two-word block; when that word has bit 0 set (last line) the cursor
  returns 128. The capacities 1, 63 and 65 are covered by \<open>scan_enumerates\<close> and
  \<open>cursor_enumerates\<close>.
\<close>

theorem boundary_capacity_stray_read:
  "construct 64 [] = Inr (with_chunks 64 [0]) \<and>
   bitset_next_set_bit (with_chunks 64 [0]) 0 = Inl OutOfBounds \<and>
   construct 128 [Set 64] = Inr (with_chunks 128 [0, 1]) \<and>
   enumerate2_elems (with_chunks 128 [0, 1]) 0 = ([64], Some OutOfBounds) \<and>
   enumerate_elems [0, 1] (bitset_iter_begin (with_chunks 128 [0, 1])) = ([64], Some OutOfBounds) \<and>
   enumerate_elems [0, 1, 3] (bitset_iter_begin (with_chunks 128 [0, 1])) = ([64, 128], None)"
  by code_simp

text \<open>
  C4. For every bitset and every start index at or above its capacity,
  \<open>bitset_next_set_bit\<close> returns -1 and reads nothing: the pointer \<open>chunks + (index >> 6)\<close>
  is formed but the loop condition \<open>index < capacity\<close> fails before it is dereferenced.
  The result is the same whatever the block is, also for the empty block, every read of
  which would fail.
\<close>

theorem start_beyond_capacity:
  assumes "capacity bs \<le> start"
  shows "\<forall>ws. bitset_next_set_bit (bs\<lparr>chunks := ws\<rparr>) start = Inr (- 1)"
  using assms by (simp add: bitset_next_set_bit_def next_set_bit_loop.simps)

theorem start_beyond_capacity_witness:
  "bitset_next_set_bit \<lparr>capacity = 10, nchunks = 1, chunks = [521]\<rparr> 10 = Inr (- 1) \<and>
   bitset_next_set_bit \<lparr>capacity = 10, nchunks = 1, chunks = []\<rparr> 4711 = Inr (- 1)"
  using start_beyond_capacity [of "\<lparr>capacity = 10, nchunks = 1, chunks = [521]\<rparr>" 10]
    start_beyond_capacity [of "\<lparr>capacity = 10, nchunks = 1, chunks = [521]\<rparr>" 4711]
  by simp

text \<open>
  C5. The k-th result of the cursor is claimed to equal the k-th result of the restarted
  stateless scan, up to and including the first "none". At capacity 128 with only bit 127
  set both return 127 first; the stateless scan then returns -1 without a read, the
  cursor reads word 2 of a two-word block. On the empty bitset of capacity 64 it is the
  cursor that returns -1 at once and the stateless scan that reads word 1 of a one-word
  block. Where the capacity is not a multiple of 64 the two sequences are the same list
  (\<open>scan_enumerates\<close>, \<open>cursor_enumerates\<close>).
\<close>

theorem cursor_differs_from_scan:
  "construct 128 [Set 127] = Inr (with_chunks 128 [0, 9223372036854775808]) \<and>
   enumerate2_elems (with_chunks 128 [0, 9223372036854775808]) 0 = ([127], None) \<and>
   enumerate_elems [0, 9223372036854775808]
     (bitset_iter_begin (with_chunks 128 [0, 9223372036854775808])) = ([127], Some OutOfBounds) \<and>
   construct 64 [] = Inr (with_chunks 64 [0]) \<and>
   enumerate2_elems (with_chunks 64 [0]) 0 = ([], Some OutOfBounds) \<and>
   enumerate_elems [0] (bitset_iter_begin (with_chunks 64 [0])) = ([], None)"
  by code_simp

text \<open>
  C6. \<open>bitset_next_set_bit(bs, k)\<close> is claimed to be the first set index at or above \<open>k\<close>
  and -1 when there is none, for every \<open>0 \<le> k \<le> capacity\<close>. At capacity 64 with only
  bit 0 set and \<open>k = 1\<close> there is none; the scan walks bits 1 to 63 and then reads word
  1 of a one-word block before it can return (the value it returns when that read yields
  a word is -1, \<open>stray_word_ignored_by_scan\<close>). Where the capacity is not a multiple of
  64 the claim holds (\<open>next_set_bit_first\<close>).
\<close>

theorem restart_in_last_word:
  "construct 64 [Set 0] = Inr (with_chunks 64 [1]) \<and>
   bitset_next_set_bit (with_chunks 64 [1]) 0 = Inr 0 \<and>
   bitset_next_set_bit (with_chunks 64 [1]) 1 = Inl OutOfBounds \<and>
   bitset_next_set_bit (with_chunks 64 [1]) 64 = Inr (- 1)"
  by code_simp

text \<open>
  C7. For every bitset (\<open>layout_ok\<close> holds of what \<open>bitset_init\<close> returns and is kept
  by every mutation: \<open>bitset_init_layout\<close>, \<open>apply_mutations_layout\<close>) and every index
  \<open>i\<close> in \<open>[0, capacity)\<close>: \<open>bitset_set\<close> succeeds,
  after it \<open>bitset_get i\<close> is true and \<open>bitset_get j\<close> is what it was for every other
  \<open>j\<close> in \<open>[0, capacity)\<close>; a following \<open>bitset_clear i\<close> succeeds, after it
  \<open>bitset_get i\<close> is false and every other bit is what it was.
\<close>

theorem set_clear_frame:
  assumes "layout_ok bs" "0 \<le> i" "i < capacity bs"
  shows "\<exists>bs1 bs2.
           bitset_set bs i = Inr bs1 \<and> bitset_get bs1 i = Inr True \<and>
           (\<forall>j. 0 \<le> j \<and> j < capacity bs \<and> j \<noteq> i \<longrightarrow> bitset_get bs1 j = bitset_get bs j) \<and>
           bitset_clear bs1 i = Inr bs2 \<and> bitset_get bs2 i = Inr False \<and>
           (\<forall>j. 0 \<le> j \<and> j < capacity bs \<and> j \<noteq> i \<longrightarrow> bitset_get bs2 j = bitset_get bs1 j)"
proof -
  let ?k = "nat (i div 64)" and ?n = "nat (i mod 64)"
  define bs1 where "bs1 = bs\<lparr>chunks := (chunks bs)[?k := chunks bs ! ?k OR push_bit ?n 1]\<rparr>"
  define bs2 where "bs2 = bs1\<lparr>chunks := (chunks bs1)[?k := chunks bs1 ! ?k AND NOT (push_bit ?n 1)]\<rparr>"
  have k: "?k < length (chunks bs)" and n: "?n < 64"
    using valid_index_offset [OF assms] by (simp_all add: nat_less_iff)
  have l1: "layout_ok bs1" "capacity bs1 = capacity bs"
    using assms(1) by (simp_all add: bs1_def layout_ok_def)
  have l2: "layout_ok bs2" "capacity bs2 = capacity bs"
    using l1 by (simp_all add: bs2_def layout_ok_def)
  have s: "bitset_set bs i = Inr bs1"
    using bitset_set_valid [OF assms] by (simp add: bs1_def)
  have c: "bitset_clear bs1 i = Inr bs2"
    using bitset_clear_valid [of bs1 i] l1 assms by (simp add: bs2_def)
  have g1: "bitset_get bs1 i = Inr True"
    using bitset_get_valid [of bs1 i] l1 assms k n by (simp add: bs1_def bit_set_mask)
  have g2: "bitset_get bs2 i = Inr False"
    using bitset_get_valid [of bs2 i] l2 assms k n by (simp add: bs2_def bs1_def bit_clear_mask)
  have f1: "bitset_get bs1 j = bitset_get bs j" if "0 \<le> j" "j < capacity bs" "j \<noteq> i" for j
  proof -
    have "bit (chunks bs1 ! nat (j div 64)) (nat (j mod 64)) = bit (chunks bs ! nat (j div 64)) (nat (j mod 64))"
    proof (cases "nat (j div 64) = ?k")
      case True
      with index_split_neq [OF assms(2) that(1,3)] k n show ?thesis
        by (simp add: bs1_def bit_set_mask)
    next
      case False
      then show ?thesis by (simp add: bs1_def)
    qed
    then show ?thesis
      using bitset_get_valid [of bs1 j] bitset_get_valid [of bs j] l1 assms(1) that by simp
  qed
  have f2: "bitset_get bs2 j = bitset_get bs1 j" if "0 \<le> j" "j < capacity bs" "j \<noteq> i" for j
  proof -
    have "bit (chunks bs2 ! nat (j div 64)) (nat (j mod 64)) = bit (chunks bs1 ! nat (j div 64)) (nat (j mod 64))"
    proof (cases "nat (j div 64) = ?k")
      case True
      with index_split_neq [OF assms(2) that(1,3)] k n show ?thesis
        by (simp add: bs2_def bs1_def bit_clear_mask)
    next
      case False
      then show ?thesis by (simp add: bs2_def)
    qed
    then show ?thesis
      using bitset_get_valid [of bs2 j] bitset_get_valid [of bs1 j] l1 l2 that by simp
  qed
  from s c g1 g2 f1 f2 show ?thesis by blast
qed

theorem set_clear_frame_witness:
  "layout_ok \<lparr>capacity = 10, nchunks = 1, chunks = [521]\<rparr> \<and>
   (\<exists>bs1 bs2.
      bitset_set \<lparr>capacity = 10, nchunks = 1, chunks = [521]\<rparr> 4 = Inr bs1 \<and>
      bitset_get bs1 4 = Inr True \<and> bitset_get bs1 3 = Inr True \<and> bitset_get bs1 5 = Inr False \<and>
      bitset_clear bs1 4 = Inr bs2 \<and> bitset_get bs2 4 = Inr False \<and>
      bitset_get bs2 3 = Inr True \<and> bitset_get bs2 5 = Inr False)"
proof -
  let ?bs = "\<lparr>capacity = 10, nchunks = 1, chunks = [521]\<rparr>"
  have h: "layout_ok ?bs" by (simp add: layout_ok_def signed_divide_int_def signed_modulo_int_def)
  have g: "bitset_get ?bs 3 = Inr True" "bitset_get ?bs 5 = Inr False"
    by code_simp+
  from set_clear_frame [OF h, of 4] obtain bs1 bs2 where
    "bitset_set ?bs 4 = Inr bs1" "bitset_get bs1 4 = Inr True"
    "\<forall>j. 0 \<le> j \<and> j < capacity ?bs \<and> j \<noteq> 4 \<longrightarrow> bitset_get bs1 j = bitset_get ?bs j"
    "bitset_clear bs1 4 = Inr bs2" "bitset_get bs2 4 = Inr False"
    "\<forall>j. 0 \<le> j \<and> j < capacity ?bs \<and> j \<noteq> 4 \<longrightarrow> bitset_get bs2 j = bitset_get bs1 j"
    by auto
  with g h show ?thesis by auto 
qed

text \<open>
  C8. In every bitset reached from \<open>bitset_new\<close> or \<open>bitset_init\<close> by calls of
  \<open>bitset_set\<close>, \<open>bitset_clear\<close> and \<open>bitset_reset\<close> with indices in \<open>[0, capacity)\<close>
  every call succeeds and every bit position of the block at or beyond \<open>capacity\<close>
  holds 0.
\<close>

theorem padding_stays_zero:
  assumes "bitset_new ok heap cap = Inr bs0 \<or> bitset_init heap cap = Inr bs0"
    and "\<forall>m \<in> set ms. valid_mutation cap m"
  shows "\<exists>bs. apply_mutations bs0 ms = Inr bs \<and> capacity bs = cap \<and> padding_zero bs"
proof -
  from assms(1) have i: "bitset_init heap cap = Inr bs0"
    using bitset_new_init by blast
  then have "layout_ok bs0" "capacity bs0 = cap" "padding_zero bs0"
    using bitset_init_layout bitset_init_padding by blast+
  with assms(2) apply_mutations_invariant [of bs0 ms] show ?thesis by auto
qed

theorem padding_stays_zero_witness:
  "bitset_init (Some (\<lambda>_. 7)) 10 = Inr \<lparr>capacity = 10, nchunks = 1, chunks = [0]\<rparr> \<and>
   (\<exists>bs. apply_mutations \<lparr>capacity = 10, nchunks = 1, chunks = [0]\<rparr>
          [Set 9, Set 3, Clear 3, Reset, Set 0, Set 9] = Inr bs \<and>
        capacity bs = 10 \<and> padding_zero bs)"
proof -
  have i: "bitset_init (Some (\<lambda>_. 7)) 10 = Inr \<lparr>capacity = 10, nchunks = 1, chunks = [0]\<rparr>"
    by code_simp
  have v: "\<forall>m \<in> set [Set 9, Set 3, Clear 3, Reset, Set 0, Set 9]. valid_mutation 10 m"
    by simp
  from padding_stays_zero [OF disjI2 [OF i] v] i show ?thesis by simp
qed

text \<open>
  C9. For capacity 0 construction yields a block of zero words, \<open>bitset_get\<close> and
  \<open>bitset_set\<close> reject index 0, and the stateless scan from 0 returns -1 without a
  read. The claim also has every index rejected and the cursor return "none" without
  reading storage: index -64 passes \<open>index_check\<close> and reaches word -1, and the first
  \<open>bitset_iter_next\<close> enters its loop (\<open>-1 < 0\<close>), steps to word 0 and reads it, though
  no word was allocated. Over a word with bit 0 set (last line) it returns index 0.
\<close>

theorem empty_capacity_cursor:
  "bitset_init (Some (\<lambda>_. 0)) 0 = Inr (with_chunks 0 []) \<and>
   bitset_get (with_chunks 0 []) 0 = Inl IndexOutOfRange \<and>
   bitset_set (with_chunks 0 []) 0 = Inl IndexOutOfRange \<and>
   bitset_get (with_chunks 0 []) (- 64) = Inl OutOfBounds \<and>
   enumerate2_elems (with_chunks 0 []) 0 = ([], None) \<and>
   bitset_iter_next [] (bitset_iter_begin (with_chunks 0 [])) = Inl OutOfBounds \<and>
   enumerate_elems [] (bitset_iter_begin (with_chunks 0 [])) = ([], Some OutOfBounds) \<and>
   enumerate_elems [1] (bitset_iter_begin (with_chunks 0 [])) = ([0], None)"
  by code_simp

text \<open>
  C10. For every bitset with \<open>capacity > 0\<close> and every \<open>i\<close> in \<open>[0, capacity)\<close>:
  \<open>nchunks\<close> is \<open>capacity / 64\<close> rounded up and the number of words of the block, the word
  offset \<open>i / 64\<close> lies in \<open>[0, nchunks)\<close>, and \<open>bitset_set\<close>, \<open>bitset_clear\<close> and
  \<open>bitset_get\<close> return without a failure.
\<close>

theorem word_offset_in_bounds:
  assumes "layout_ok bs" "0 < capacity bs" "0 \<le> i" "i < capacity bs"
  shows "nchunks bs = (capacity bs + 63) div 64 \<and> int (length (chunks bs)) = nchunks bs \<and>
         0 \<le> i sdiv 64 \<and> i sdiv 64 < nchunks bs \<and>
         (\<exists>bs'. bitset_set bs i = Inr bs') \<and> (\<exists>bs'. bitset_clear bs i = Inr bs') \<and>
         (\<exists>b. bitset_get bs i = Inr b)"
proof -
  have "0 \<le> capacity bs" using assms(2) by simp
  then have "nchunks bs = (if capacity bs mod 64 \<noteq> 0 then capacity bs div 64 + 1 else capacity bs div 64)"
    using assms(1) by (simp add: layout_ok_def sdiv_nonneg smod_nonneg)
  then have n: "nchunks bs = (capacity bs + 63) div 64"
    by (simp only: ceil_words)
  with assms(2) have "0 \<le> nchunks bs" by simp
  with assms(1) have l: "int (length (chunks bs)) = nchunks bs"
    by (simp add: layout_ok_def)
  from valid_index_offset [OF assms(1,3,4)] l assms(3)
  have "0 \<le> i sdiv 64" "i sdiv 64 < nchunks bs"
    by (simp_all add: sdiv_nonneg)
  with n l show ?thesis
    by (simp add: bitset_set_valid [OF assms(1,3,4)] bitset_clear_valid [OF assms(1,3,4)]
        bitset_get_valid [OF assms(1,3,4)])
qed

theorem word_offset_in_bounds_witness:
  "layout_ok \<lparr>capacity = 65, nchunks = 2, chunks = [0, 1]\<rparr> \<and>
   nchunks \<lparr>capacity = 65, nchunks = 2, chunks = [0, 1]\<rparr> = (65 + 63) div 64 \<and>
   (64 :: int) sdiv 64 < 2 \<and>
   (\<exists>b. bitset_get \<lparr>capacity = 65, nchunks = 2, chunks = [0, 1]\<rparr> 64 = Inr b)"
proof -
  let ?bs = "\<lparr>capacity = 65, nchunks = 2, chunks = [0, 1]\<rparr>"
  have h: "layout_ok ?bs" by (simp add: layout_ok_def signed_divide_int_def signed_modulo_int_def)
  from word_offset_in_bounds [OF h, of 64] h show ?thesis by simp
qed

end
